theory Spec2Isabelle
  imports Main "HOL-Library.Char_ord" "HOL-Library.Multiset"
begin

section \<open>Strings and library calls\<close>

text \<open>
  A Go string is a sequence of bytes, modelled as \<^typ>\<open>string\<close> (a list of \<^typ>\<open>char\<close>,
  each a byte, ordered by its numeric value). A \<^verbatim>\<open>range\<close> loop over a Go string
  yields UTF-8 runes; on a string of ASCII bytes a rune is a byte. The program only
  ranges over the constant \<^verbatim>\<open>alphabet\<close>, over strings built from its letters, over
  dictionary words that have passed \<^verbatim>\<open>containsOnly(w, alphabet)\<close>, and, in that very
  call, over a raw trimmed line \<^verbatim>\<open>w\<close>: there a byte outside ASCII decodes to a rune
  outside the alphabet, so the byte-wise scan rejects the line exactly when the
  rune-wise scan does.
\<close>

definition alphabet :: string where
  "alphabet = ''abcdefghijklmnopqrstuvwxyz''"

text \<open>\<^verbatim>\<open>strings.Contains(s, substr)\<close>: \<^verbatim>\<open>substr\<close> occurs in \<^verbatim>\<open>s\<close> as a contiguous block.\<close>

fun Contains :: "string \<Rightarrow> string \<Rightarrow> bool" where
  "Contains [] substr = (substr = [])"
| "Contains (b # s) substr = (take (length substr) (b # s) = substr \<or> Contains s substr)"

text \<open>\<^verbatim>\<open>strings.ContainsRune(s, r)\<close>.\<close>

fun ContainsRune :: "string \<Rightarrow> char \<Rightarrow> bool" where
  "ContainsRune [] r = False"
| "ContainsRune (b # s) r = (b = r \<or> ContainsRune s r)"

text \<open>
  \<^verbatim>\<open>strings.TrimSpace\<close> on a string of ASCII bytes: leading and trailing tab, line feed,
  vertical tab, form feed, carriage return and space are removed. The library function
  also removes Unicode white space beyond ASCII; the loader below therefore takes the
  trimming function as a parameter, and \<open>TrimSpace\<close> is what it is run with on
  ASCII input.
\<close>

definition asciiSpace :: "char \<Rightarrow> bool" where
  "asciiSpace b = (b = CHR 0x09 \<or> b = CHR 0x0A \<or> b = CHR 0x0B \<or> b = CHR 0x0C
                    \<or> b = CHR 0x0D \<or> b = CHR '' '')"

definition TrimSpace :: "string \<Rightarrow> string" where
  "TrimSpace s = rev (dropWhile asciiSpace (rev (dropWhile asciiSpace s)))"

text \<open>
  \<^verbatim>\<open>(*bufio.Reader).ReadBytes(delim)\<close> on a reader whose unread data is the first argument.
  When the delimiter occurs, the bytes up to and including it are returned with a nil
  error, and the second component is \<open>Some\<close> of the data left unread. When it does not
  occur, all remaining data is returned together with the error that ended the stream
  (\<open>None\<close> in the second component).
\<close>

fun ReadBytes :: "string \<Rightarrow> char \<Rightarrow> string \<times> string option" where
  "ReadBytes [] delim = ([], None)"
| "ReadBytes (b # bs) delim =
     (if b = delim then ([b], Some bs)
      else (case ReadBytes bs delim of (l, unread) \<Rightarrow> (b # l, unread)))"

text \<open>Decimal formatting of an integer, as \<^verbatim>\<open>fmt.Fprintln\<close> prints an \<^verbatim>\<open>int\<close>.\<close>

definition digit :: "nat \<Rightarrow> char" where
  "digit d = ''0123456789'' ! d"

fun utoa :: "nat \<Rightarrow> string" where
  "utoa n = (if n < 10 then [digit n] else utoa (n div 10) @ [digit (n mod 10)])"

declare utoa.simps [simp del]

definition itoa :: "int \<Rightarrow> string" where
  "itoa i = (if i < 0 then CHR ''-'' # utoa (nat (- i)) else utoa (nat i))"

section \<open>Failures and the environment\<close>

text \<open>
  \<open>OpenFailed\<close>, \<open>ReadBytesFailed\<close> and \<open>CreateFailed\<close> are the three \<^verbatim>\<open>log.Fatalf\<close> exits;
  \<open>IndexOutOfRange\<close> is the run-time panic of an index expression \<^verbatim>\<open>s[0]\<close> on an
  empty string.
\<close>

datatype failure = OpenFailed | ReadBytesFailed | CreateFailed string | IndexOutOfRange

text \<open>
  The words file as the loader sees it: \<^verbatim>\<open>os.Open\<close> fails (\<open>Missing\<close>), or it delivers
  bytes and then ends, at the end of the file or with a read error.
\<close>

datatype read_end = EOF | ReadError

datatype dict_file = Missing | Stream string read_end

section \<open>Combination generator\<close>

text \<open>
  \<^verbatim>\<open>genAllStrings(n, out)\<close> sends strings to \<^verbatim>\<open>out\<close> and closes it. The model returns the
  sequence sent, in order; \<open>None\<close> stands for a run that never closes its channel (the
  recursion does not reach \<^verbatim>\<open>n == 1\<close>, or \<^verbatim>\<open>rest[0]\<close> panics on an empty string).
  \<open>forAlphabet\<close> is the loop \<^verbatim>\<open>for _, c := range alphabet\<close>, and \<open>prependTo c\<close> is the loop
  \<^verbatim>\<open>for rest := range ch\<close> over what the recursive call has sent.
\<close>

fun forAlphabet :: "string \<Rightarrow> (char \<Rightarrow> string list option) \<Rightarrow> string list option" where
  "forAlphabet [] body = Some []"
| "forAlphabet (c # cs) body =
     Option.bind (body c)
       (\<lambda>sent. Option.bind (forAlphabet cs body) (\<lambda>later. Some (sent @ later)))"

fun prependTo :: "char \<Rightarrow> string list \<Rightarrow> string list option" where
  "prependTo c [] = Some []"
| "prependTo c (rest # ch) =
     (case rest of
        [] \<Rightarrow> None
      | r0 # _ \<Rightarrow>
          Option.bind (prependTo c ch)
            (\<lambda>later. if r0 > c then Some ((c # rest) # later) else Some later))"

lemma forAlphabet_mono [partial_function_mono]:
  assumes "\<And>c. mono_option (\<lambda>f. B f c)"
  shows "mono_option (\<lambda>f. forAlphabet cs (B f))"
  using assms by (induction cs) (auto intro!: partial_function_mono)

partial_function (option) genAllStrings :: "int \<Rightarrow> string list option" where
  "genAllStrings n =
     forAlphabet alphabet
       (\<lambda>c. if n = 1 then Some [[c]]
            else Option.bind (genAllStrings (n - 1)) (prependTo c))"

declare genAllStrings.simps [code]

section \<open>Rotation expander\<close>

text \<open>
  \<open>rotations s i\<close> is the inner loop \<^verbatim>\<open>for i := i; i < len(s); i++\<close> of \<^verbatim>\<open>rotate\<close>, sending
  \<^verbatim>\<open>s[i:] + s[:i]\<close>; \<open>rotate_chan\<close> is the outer loop over the input channel. Both return
  the sequence sent to \<^verbatim>\<open>out\<close>.
\<close>

function rotations :: "string \<Rightarrow> nat \<Rightarrow> string list" where
  "rotations s i =
     (if i < length s then (drop i s @ take i s) # rotations s (Suc i) else [])"
  by pat_completeness auto
termination
  by (relation "measure (\<lambda>(s, i). length s - i)") auto

declare rotations.simps [simp del]

fun rotate_chan :: "string list \<Rightarrow> string list" where
  "rotate_chan [] = []"
| "rotate_chan (s # ins) = rotations s 0 @ rotate_chan ins"

section \<open>Dictionary loader\<close>

text \<open>
  \<^verbatim>\<open>containsOnly\<close> first collects the runes of \<^verbatim>\<open>target\<close> in a map used as a set, then scans
  \<^verbatim>\<open>s\<close> and returns false at the first rune not found.
\<close>

fun runeSet :: "string \<Rightarrow> char set \<Rightarrow> char set" where
  "runeSet [] rs = rs"
| "runeSet (r # target) rs = runeSet target (insert r rs)"

fun allFound :: "char set \<Rightarrow> string \<Rightarrow> bool" where
  "allFound rs [] = True"
| "allFound rs (r # s) = (if r \<notin> rs then False else allFound rs s)"

definition containsOnly :: "string \<Rightarrow> string \<Rightarrow> bool" where
  "containsOnly s target = allFound (runeSet target {}) s"

text \<open>
  \<^verbatim>\<open>hasAtMostLetters\<close> adds each rune to the set \<^verbatim>\<open>cs\<close> and returns false as soon as the
  set has more than \<^verbatim>\<open>n\<close> elements.
\<close>

fun countLetters :: "char set \<Rightarrow> string \<Rightarrow> int \<Rightarrow> bool" where
  "countLetters cs [] n = True"
| "countLetters cs (c # s) n =
     (if int (card (insert c cs)) > n then False else countLetters (insert c cs) s n)"

definition hasAtMostLetters :: "string \<Rightarrow> int \<Rightarrow> bool" where
  "hasAtMostLetters s n = countLetters {} s n"

text \<open>
  The read loop of \<^verbatim>\<open>genAllWords\<close>. Its arguments are the trimming function, the flag
  \<^verbatim>\<open>num_letters\<close>, the unread data of the file, how the stream ends, and \<^verbatim>\<open>allWords\<close> so
  far. The loop leaves on \<^verbatim>\<open>io.EOF\<close> before it looks at the bytes returned with it; any
  other error is fatal.
\<close>

lemma ReadBytes_unread_shorter:
  "ReadBytes r delim = (l, Some unread) \<Longrightarrow> length unread < length r"
  by (induction r arbitrary: l) (auto split: if_splits prod.splits)

function readWords ::
  "(string \<Rightarrow> string) \<Rightarrow> int \<Rightarrow> string \<Rightarrow> read_end \<Rightarrow> string list \<Rightarrow> failure + string list"
where
  "readWords trim numLetters r ending allWords =
     (case ReadBytes r (CHR 0x0A) of
        (l, None) \<Rightarrow>
          (case ending of EOF \<Rightarrow> Inr allWords | ReadError \<Rightarrow> Inl ReadBytesFailed)
      | (l, Some unread) \<Rightarrow>
          (let w = trim l in
           if length w < 5 then readWords trim numLetters unread ending allWords
           else if \<not> containsOnly w alphabet then
             readWords trim numLetters unread ending allWords
           else if \<not> hasAtMostLetters w numLetters then
             readWords trim numLetters unread ending allWords
           else readWords trim numLetters unread ending (allWords @ [w])))"
  by pat_completeness auto
termination
  by (relation "measure (\<lambda>(trim, numLetters, r, ending, allWords). length r)")
     (auto dest: ReadBytes_unread_shorter[OF sym])

declare readWords.simps [simp del]

definition genAllWords :: "(string \<Rightarrow> string) \<Rightarrow> dict_file \<Rightarrow> int \<Rightarrow> failure + string list" where
  "genAllWords trim wordsFile numLetters =
     (case wordsFile of
        Missing \<Rightarrow> Inl OpenFailed
      | Stream bytes ending \<Rightarrow> readWords trim numLetters bytes ending [])"

section \<open>Matcher\<close>

record puzzle =
  letters :: string
  words :: "string list"
  maxPts :: int

text \<open>
  The scan of \<^verbatim>\<open>allWords\<close> for one string \<^verbatim>\<open>s\<close> of the input channel. The index expression
  \<^verbatim>\<open>s[0]\<close> is evaluated once per dictionary word, and panics when \<^verbatim>\<open>s\<close> is empty.
\<close>

fun scanWords :: "string \<Rightarrow> string list \<Rightarrow> string list \<Rightarrow> failure + string list" where
  "scanWords s [] found = Inr found"
| "scanWords s (word # allWords) found =
     (case s of
        [] \<Rightarrow> Inl IndexOutOfRange
      | s0 # _ \<Rightarrow>
          if \<not> Contains word [s0] then scanWords s allWords found
          else if containsOnly word s then scanWords s allWords (found @ [word])
          else scanWords s allWords found)"

text \<open>The flag \<^verbatim>\<open>containsAll\<close> after the loop over the runes of \<^verbatim>\<open>s\<close>.\<close>

fun containsAll :: "string \<Rightarrow> string \<Rightarrow> bool \<Rightarrow> bool" where
  "containsAll w [] flag = flag"
| "containsAll w (letter # s) flag =
     (if \<not> ContainsRune w letter then containsAll w s False else containsAll w s flag)"

text \<open>The scoring loop: the pair is \<^verbatim>\<open>(someContainsAll, maxPts)\<close>.\<close>

fun score :: "string \<Rightarrow> string list \<Rightarrow> bool \<times> int \<Rightarrow> bool \<times> int" where
  "score s [] acc = acc"
| "score s (w # ws) (someContainsAll, pts) =
     (if containsAll w s True then score s ws (True, pts + 3)
      else score s ws (someContainsAll, pts + 1))"

text \<open>
  One iteration of the loop of \<^verbatim>\<open>matchWords\<close> over its input channel: \<open>Inr None\<close> is
  \<^verbatim>\<open>continue\<close>, \<open>Inr (Some p)\<close> sends \<open>p\<close> to \<^verbatim>\<open>out\<close>. The map \<^verbatim>\<open>runes\<close> built at the start of
  the iteration is never read and is left out, as is what is printed to standard output.
  \<^verbatim>\<open>maxPts\<close> is at most three times the number of dictionary words, far below the range
  of a 64-bit \<^verbatim>\<open>int\<close>, and is modelled as an unbounded integer.
\<close>

definition matchOne :: "string list \<Rightarrow> string \<Rightarrow> failure + puzzle option" where
  "matchOne allWords s =
     (case scanWords s allWords [] of
        Inl e \<Rightarrow> Inl e
      | Inr found \<Rightarrow>
          if length found < 10 then Inr None
          else (case score s found (False, 0) of
                  (someContainsAll, pts) \<Rightarrow>
                    if \<not> someContainsAll then Inr None
                    else Inr (Some \<lparr>letters = s, words = found, maxPts = pts\<rparr>)))"

text \<open>
  A worker: the puzzles it sends, in order, and the panic that stopped it, if any.
\<close>

fun matchWords :: "string list \<Rightarrow> string list \<Rightarrow> puzzle list \<times> failure option" where
  "matchWords allWords [] = ([], None)"
| "matchWords allWords (s # ins) =
     (case matchOne allWords s of
        Inl e \<Rightarrow> ([], Some e)
      | Inr None \<Rightarrow> matchWords allWords ins
      | Inr (Some p) \<Rightarrow>
          (case matchWords allWords ins of (sent, stopped) \<Rightarrow> (p # sent, stopped)))"

section \<open>Puzzle writer\<close>

text \<open>
  The output directory is a map from path to file contents; \<open>creatable\<close> tells for which
  paths \<^verbatim>\<open>os.Create\<close> succeeds. \<^verbatim>\<open>os.Create\<close> truncates, so the file holds exactly what is
  printed to it afterwards. The results of \<^verbatim>\<open>fmt.Fprintln\<close> are not checked by the
  program; the model takes every write to a created file to succeed. The ticker branch
  only prints to standard output and is left out.
\<close>

fun printWords :: "string list \<Rightarrow> string \<Rightarrow> string" where
  "printWords [] f = f"
| "printWords (w # ws) f = printWords ws (f @ w @ [CHR 0x0A])"

definition fileText :: "puzzle \<Rightarrow> string" where
  "fileText p = printWords (words p) [] @ itoa (maxPts p) @ [CHR 0x0A]"

fun writePuzzles ::
  "(string \<Rightarrow> bool) \<Rightarrow> puzzle list \<Rightarrow> (string \<rightharpoonup> string) \<Rightarrow> (string \<rightharpoonup> string) \<times> failure option"
where
  "writePuzzles creatable [] dir = (dir, None)"
| "writePuzzles creatable (p # ins) dir =
     (let fn = letters p @ ''.txt'' in
      if \<not> creatable (''./puzzels/'' @ fn) then (dir, Some (CreateFailed fn))
      else writePuzzles creatable ins (dir(''./puzzels/'' @ fn \<mapsto> fileText p)))"

section \<open>Matcher pool and the whole run\<close>

text \<open>
  Every string of the channel \<^verbatim>\<open>rotated\<close> is received by exactly one of the \<^verbatim>\<open>parallel\<close>
  workers. A schedule lists, for each string in channel order, the worker that receives
  it; \<open>received\<close> is the input one worker sees and \<open>pool\<close> the result of every worker.
  The channel \<^verbatim>\<open>puzzles\<close> carries some interleaving of what the workers send.
\<close>

definition received :: "nat list \<Rightarrow> string list \<Rightarrow> nat \<Rightarrow> string list" where
  "received sched rotated k = map fst (filter (\<lambda>(s, j). j = k) (zip rotated sched))"

definition schedule_ok :: "nat list \<Rightarrow> string list \<Rightarrow> nat \<Rightarrow> bool" where
  "schedule_ok sched rotated parallel =
     (length sched = length rotated \<and> list_all (\<lambda>j. j < parallel) sched)"

definition pool ::
  "string list \<Rightarrow> nat \<Rightarrow> nat list \<Rightarrow> string list \<Rightarrow> (puzzle list \<times> failure option) list"
where
  "pool allWords parallel sched rotated =
     map (\<lambda>k. matchWords allWords (received sched rotated k)) [0..<parallel]"

inductive interleaving :: "'a list list \<Rightarrow> 'a list \<Rightarrow> bool" where
  drained: "list_all (\<lambda>xs. xs = []) xss \<Longrightarrow> interleaving xss []"
| sent: "k < length xss \<Longrightarrow> xss ! k = x # xs \<Longrightarrow> interleaving (xss[k := xs]) out \<Longrightarrow>
         interleaving xss (x # out)"

text \<open>
  A run of \<^verbatim>\<open>main\<close> from the words file, the creatable paths, the flags \<^verbatim>\<open>num_letters\<close> and
  \<^verbatim>\<open>parallel\<close> and the output directory, to its outcome: the directory it leaves, the
  failure that ended it, if any, and the goroutines \<^verbatim>\<open>main\<close> has launched by then, in
  program order. Profiling and logging are left out. \<^verbatim>\<open>main\<close> launches the generator, the
  rotation expander and the writer, then loads the dictionary, where a fatal error exits
  the process, then launches the workers and waits for them. With no worker the channel
  \<^verbatim>\<open>puzzles\<close> is closed at once. A run whose generator never closes its channel has no
  outcome. The rule for a full run asks that no worker panics; the rotation expander never
  sends an empty string, so none does. When the writer exits the process on a file it
  cannot create, \<^verbatim>\<open>main\<close> may still be launching workers: the rule admits any number
  \<open>j\<close> of them launched by then.
\<close>

datatype goroutine = GenAllStrings | Rotate | WritePuzzles | MatchWords nat

record outcome =
  directory :: "string \<rightharpoonup> string"
  fatal :: "failure option"
  launched :: "goroutine list"

inductive main_run ::
  "(string \<Rightarrow> string) \<Rightarrow> dict_file \<Rightarrow> (string \<Rightarrow> bool) \<Rightarrow> int \<Rightarrow> int \<Rightarrow> (string \<rightharpoonup> string) \<Rightarrow>
   outcome \<Rightarrow> bool"
where
  startup_fatal:
    "genAllWords trim wordsFile numLetters = Inl e \<Longrightarrow>
     main_run trim wordsFile creatable numLetters parallel dir
       \<lparr>directory = dir, fatal = Some e, launched = [GenAllStrings, Rotate, WritePuzzles]\<rparr>"
| no_worker:
    "genAllWords trim wordsFile numLetters = Inr allWords \<Longrightarrow> parallel \<le> 0 \<Longrightarrow>
     main_run trim wordsFile creatable numLetters parallel dir
       \<lparr>directory = dir, fatal = None, launched = [GenAllStrings, Rotate, WritePuzzles]\<rparr>"
| pipeline:
    "genAllWords trim wordsFile numLetters = Inr allWords \<Longrightarrow> 0 < parallel \<Longrightarrow>
     genAllStrings numLetters = Some strings \<Longrightarrow>
     schedule_ok sched (rotate_chan strings) (nat parallel) \<Longrightarrow>
     list_all (\<lambda>r. snd r = None) (pool allWords (nat parallel) sched (rotate_chan strings)) \<Longrightarrow>
     interleaving (map fst (pool allWords (nat parallel) sched (rotate_chan strings))) sent \<Longrightarrow>
     writePuzzles creatable sent dir = (dir', stopped) \<Longrightarrow>
     0 < j \<Longrightarrow> j \<le> nat parallel \<Longrightarrow> (stopped = None \<longrightarrow> j = nat parallel) \<Longrightarrow>
     main_run trim wordsFile creatable numLetters parallel dir
       \<lparr>directory = dir', fatal = stopped,
        launched = [GenAllStrings, Rotate, WritePuzzles] @ map MatchWords [0..<j]\<rparr>"

section \<open>Properties of the combination generator\<close>

lemma alphabet_distinct: "distinct alphabet"
  by (simp add: alphabet_def)

lemma alphabet_length: "length alphabet = 26"
  by (simp add: alphabet_def)

lemma forAlphabet_Some:
  "(\<And>c. c \<in> set cs \<Longrightarrow> body c = Some (g c)) \<Longrightarrow>
   forAlphabet cs body = Some (concat (map g cs))"
  by (induction cs) simp_all

lemma prependTo_Some:
  "[] \<notin> set ch \<Longrightarrow>
   prependTo c ch = Some (map ((#) c) (filter (\<lambda>rest. c < hd rest) ch))"
  by (induction ch) (auto split: list.splits)

definition combos :: "nat \<Rightarrow> string set" where
  "combos n = {s. length s = n \<and> sorted_wrt (<) s \<and> set s \<subseteq> set alphabet}"

lemma genAllStrings_1: "genAllStrings 1 = Some (map (\<lambda>c. [c]) alphabet)"
proof -
  have "genAllStrings 1 = Some (concat (map (\<lambda>c. [[c]]) alphabet))"
    by (subst genAllStrings.simps) (rule forAlphabet_Some, simp)
  moreover have "concat (map (\<lambda>c. [[c]]) cs) = map (\<lambda>c. [c]) cs" for cs :: string
    by (induction cs) simp_all
  ultimately show ?thesis by simp
qed

lemma genAllStrings_step:
  assumes "n \<noteq> 1" and "genAllStrings (n - 1) = Some ch" and "[] \<notin> set ch"
  shows "genAllStrings n =
    Some (concat (map (\<lambda>c. map ((#) c) (filter (\<lambda>rest. c < hd rest) ch)) alphabet))"
  by (subst genAllStrings.simps) (rule forAlphabet_Some, simp add: assms prependTo_Some)

lemma distinct_prepend_all:
  "distinct cs \<Longrightarrow> distinct ch \<Longrightarrow>
   distinct (concat (map (\<lambda>c. map ((#) c) (filter (P c) ch)) cs))"
  by (induction cs) (auto simp: distinct_map inj_on_def)

lemma combos_Suc_Suc:
  "combos (Suc (Suc m)) =
   {c # rest | c rest. c \<in> set alphabet \<and> rest \<in> combos (Suc m) \<and> c < hd rest}"
proof (rule set_eqI, rule iffI)
  fix s assume "s \<in> combos (Suc (Suc m))"
  then obtain c rest where s: "s = c # rest" and l: "length rest = Suc m"
    and srt: "sorted_wrt (<) (c # rest)" and sub: "set (c # rest) \<subseteq> set alphabet"
    by (cases s) (auto simp: combos_def)
  from l obtain r rs where r: "rest = r # rs" by (cases rest) auto
  with srt have "c < hd rest" by simp
  with s l srt sub
  show "s \<in> {c # rest | c rest. c \<in> set alphabet \<and> rest \<in> combos (Suc m) \<and> c < hd rest}"
    by (auto simp: combos_def)
next
  fix s
  assume "s \<in> {c # rest | c rest. c \<in> set alphabet \<and> rest \<in> combos (Suc m) \<and> c < hd rest}"
  then obtain c rest where s: "s = c # rest" and c: "c \<in> set alphabet"
    and rest: "rest \<in> combos (Suc m)" and lt: "c < hd rest" by blast
  from rest obtain r rs where r: "rest = r # rs" by (cases rest) (auto simp: combos_def)
  from rest r have "sorted_wrt (<) (r # rs)" by (simp add: combos_def)
  then have "\<forall>x\<in>set rs. r < x" by simp
  with lt r have "\<forall>x\<in>set rest. c < x" by auto
  with s c rest show "s \<in> combos (Suc (Suc m))" by (auto simp: combos_def)
qed

lemma genAllStrings_combos:
  "\<exists>out. genAllStrings (int (Suc m)) = Some out \<and> distinct out \<and> set out = combos (Suc m)"
proof (induction m)
  case 0
  have "set (map (\<lambda>c. [c]) alphabet) = combos (Suc 0)"
    by (auto simp: combos_def length_Suc_conv)
  moreover have "distinct (map (\<lambda>c. [c]) alphabet)"
    by (simp add: distinct_map alphabet_distinct inj_on_def)
  ultimately show ?case using genAllStrings_1 by simp
next
  case (Suc m)
  then obtain ch where ch: "genAllStrings (int (Suc m)) = Some ch" "distinct ch"
    "set ch = combos (Suc m)" by blast
  have ne: "[] \<notin> set ch" using ch(3) by (auto simp: combos_def)
  let ?out = "concat (map (\<lambda>c. map ((#) c) (filter (\<lambda>rest. c < hd rest) ch)) alphabet)"
  have "genAllStrings (int (Suc (Suc m))) = Some ?out"
    by (rule genAllStrings_step) (use ch ne in simp_all)
  moreover have "distinct ?out"
    by (rule distinct_prepend_all[OF alphabet_distinct ch(2)])
  moreover have "set ?out = combos (Suc (Suc m))"
    unfolding combos_Suc_Suc using ch(3) by auto
  ultimately show ?case by blast
qed

text \<open>
  Strictly increasing lists over a finite set correspond one to one to its subsets of the
  same size, so they are counted by the binomial coefficient.
\<close>

lemma card_strict_sorted_lists:
  fixes A :: "'a::linorder set"
  assumes "finite A"
  shows "card {s. length s = n \<and> sorted_wrt (<) s \<and> set s \<subseteq> A} = card A choose n"
proof -
  let ?L = "{s. length s = n \<and> sorted_wrt (<) s \<and> set s \<subseteq> A}"
  let ?S = "{B. B \<subseteq> A \<and> card B = n}"
  have "bij_betw set ?L ?S"
  proof (rule bij_betwI')
    fix x y assume "x \<in> ?L" "y \<in> ?L"
    then show "(set x = set y) = (x = y)"
      by (auto intro: strict_sorted_equal)
  next
    fix x assume "x \<in> ?L"
    then show "set x \<in> ?S"
      by (auto simp: distinct_card strict_sorted_iff)
  next
    fix B assume B: "B \<in> ?S"
    then have fin: "finite B" using assms by (auto intro: finite_subset)
    have "sorted_list_of_set B \<in> ?L" using B fin
      by (auto simp: strict_sorted_iff)
    moreover have "set (sorted_list_of_set B) = B" using fin by simp
    ultimately show "\<exists>x\<in>?L. B = set x" by metis
  qed
  then have "card ?L = card ?S" by (rule bij_betw_same_card)
  also have "\<dots> = card A choose n" using assms by (rule n_subsets)
  finally show ?thesis .
qed

lemma card_combos: "card (combos n) = 26 choose n"
proof -
  have "card (set alphabet) = 26"
    using distinct_card[OF alphabet_distinct] alphabet_length by simp
  then show ?thesis
    using card_strict_sorted_lists[of "set alphabet" n] by (simp add: combos_def)
qed

text \<open>
  Claim C1. For every \<open>N \<ge> 1\<close> the combination generator closes its channel after sending
  exactly \<open>C(26, N)\<close> strings, each of length \<open>N\<close>, each made of alphabet letters in
  strictly increasing order, with no string sent twice; for \<open>N > 26\<close> it sends nothing.
\<close>

theorem genAllStrings_emits_combinations:
  assumes "1 \<le> N"
  shows "\<exists>out. genAllStrings N = Some out
           \<and> length out = 26 choose (nat N)
           \<and> (\<forall>s \<in> set out. int (length s) = N \<and> sorted_wrt (<) s \<and> set s \<subseteq> set alphabet)
           \<and> distinct out
           \<and> (26 < N \<longrightarrow> out = [])"
proof -
  define m where "m = nat (N - 1)"
  have N: "N = int (Suc m)" using assms by (simp add: m_def)
  from genAllStrings_combos[of m] obtain out where out:
    "genAllStrings (int (Suc m)) = Some out" "distinct out" "set out = combos (Suc m)"
    by blast
  have len: "length out = 26 choose (Suc m)"
    using distinct_card[OF out(2)] out(3) card_combos by simp
  have "26 < N \<Longrightarrow> out = []"
    using len N by (simp add: binomial_eq_0)
  moreover have "nat N = Suc m" using N by simp
  moreover have "\<forall>s \<in> set out. int (length s) = N \<and> sorted_wrt (<) s \<and> set s \<subseteq> set alphabet"
    using out(3) N by (simp add: combos_def)
  ultimately show ?thesis using out len N by simp
qed

theorem genAllStrings_emits_combinations_witness:
  "(1::int) \<le> 2 \<and>
   (\<exists>out. genAllStrings 2 = Some out \<and> length out = 325 \<and> distinct out
      \<and> list_all (\<lambda>s. length s = 2 \<and> sorted_wrt (<) s
                         \<and> list_all (\<lambda>c. c \<in> set alphabet) s) out)"
proof -
  have c: "(26::nat) choose (nat 2) = 325" by code_simp
  show ?thesis
    using genAllStrings_emits_combinations[of 2] unfolding c
    by (auto simp: list_all_iff)
qed

section \<open>Properties of the rotation expander\<close>

lemma rotations_from:
  "rotations s i = map (\<lambda>j. drop j s @ take j s) [i..<length s]"
proof (induction s i rule: rotations.induct)
  case (1 s i)
  show ?case
  proof (cases "i < length s")
    case True
    then have "[i..<length s] = i # [Suc i..<length s]" by (simp add: upt_conv_Cons)
    with 1 True show ?thesis by (subst rotations.simps) simp
  next
    case False
    then show ?thesis by (subst rotations.simps) simp
  qed
qed

lemma rotate_chan_concat:
  "rotate_chan ins = concat (map (\<lambda>s. map (\<lambda>i. drop i s @ take i s) [0..<length s]) ins)"
  by (induction ins) (simp_all add: rotations_from)

lemma length_rotate_chan:
  "(\<forall>s \<in> set ins. length s = N) \<Longrightarrow> length (rotate_chan ins) = N * length ins"
  by (induction ins) (simp_all add: rotations_from)

lemma rotate_by_one: "drop 1 v @ take 1 v = rotate1 v"
  by (cases v) simp_all

lemma rotation_is_rotate: "i < length s \<Longrightarrow> drop i s @ take i s = rotate i s"
  by (simp add: rotate_drop_take)

lemma rotate_one_closure: "((\<lambda>u. drop 1 u @ take 1 u) ^^ length v) v = v"
proof -
  have "(\<lambda>u::'a list. drop 1 u @ take 1 u) = rotate1" by (rule ext) (rule rotate_by_one)
  then have "((\<lambda>u. drop 1 u @ take 1 u) ^^ length v) v = rotate (length v) v"
    by (simp add: rotate_def)
  then show ?thesis by simp
qed

lemma rotations_successive:
  assumes "Suc i < length s"
  shows "rotations s 0 ! Suc i = drop 1 (rotations s 0 ! i) @ take 1 (rotations s 0 ! i)"
proof -
  have "rotations s 0 ! Suc i = rotate (Suc i) s"
    using assms by (simp add: rotations_from rotate_drop_take)
  moreover have "rotations s 0 ! i = rotate i s"
    using assms by (simp add: rotations_from rotate_drop_take)
  ultimately show ?thesis using rotate_by_one[of "rotate i s"] by simp
qed

text \<open>
  Claim C6. For every input string \<open>s\<close> the rotation expander sends the rotations
  \<^verbatim>\<open>s[i:] + s[:i]\<close> for \<open>i = 0, \<dots>, len(s) - 1\<close> in this order and nothing else, so on
  inputs of length \<open>N\<close> it sends \<open>N\<close> times as many strings as it receives; each rotation
  sent after the first is the one before it rotated by one position, and rotating any
  string sent by one position as many times as it has letters gives it back.
\<close>

theorem rotate_emits_cyclic_rotations:
  "rotate_chan ins = concat (map (\<lambda>s. map (\<lambda>i. drop i s @ take i s) [0..<length s]) ins)
   \<and> ((\<forall>s \<in> set ins. length s = N) \<longrightarrow> length (rotate_chan ins) = N * length ins)
   \<and> (\<forall>s \<in> set ins. \<forall>i. Suc i < length s \<longrightarrow>
         rotations s 0 ! Suc i = drop 1 (rotations s 0 ! i) @ take 1 (rotations s 0 ! i))
   \<and> (\<forall>v \<in> set (rotate_chan ins). ((\<lambda>u. drop 1 u @ take 1 u) ^^ length v) v = v)"
  using rotate_chan_concat length_rotate_chan rotations_successive rotate_one_closure
  by blast

theorem rotate_emits_cyclic_rotations_witness:
  "rotate_chan [''abc'', ''xyz''] = [''abc'', ''bca'', ''cab'', ''xyz'', ''yzx'', ''zxy'']
   \<and> length ''abc'' = 3 \<and> length ''xyz'' = 3
   \<and> length (rotate_chan [''abc'', ''xyz'']) = 3 * length [''abc'', ''xyz'']
   \<and> rotations ''abc'' 0 ! Suc 0 = drop 1 (rotations ''abc'' 0 ! 0) @ take 1 (rotations ''abc'' 0 ! 0)
   \<and> ((\<lambda>u. drop 1 u @ take 1 u) ^^ length ''bca'') ''bca'' = ''bca''"
proof -
  have r: "rotate_chan [''abc'', ''xyz''] = [''abc'', ''bca'', ''cab'', ''xyz'', ''yzx'', ''zxy'']"
    by code_simp
  have m: "''bca'' \<in> set (rotate_chan [''abc'', ''xyz''])" unfolding r by simp
  from rotate_emits_cyclic_rotations[of "[''abc'', ''xyz'']" 3] r m show ?thesis
    by simp
qed

section \<open>Properties of the matcher\<close>

lemma Contains_single: "Contains w [c] \<longleftrightarrow> c \<in> set w"
  by (induction w) auto

lemma ContainsRune_iff: "ContainsRune w r \<longleftrightarrow> r \<in> set w"
  by (induction w) auto

lemma runeSet_eq: "runeSet target rs = set target \<union> rs"
  by (induction target arbitrary: rs) auto

lemma allFound_iff: "allFound rs s \<longleftrightarrow> set s \<subseteq> rs"
  by (induction s) auto

lemma containsOnly_iff: "containsOnly s target \<longleftrightarrow> set s \<subseteq> set target"
  by (simp add: containsOnly_def runeSet_eq allFound_iff)

lemma containsAll_iff: "containsAll w s flag \<longleftrightarrow> flag \<and> set s \<subseteq> set w"
  by (induction s arbitrary: flag) (auto simp: ContainsRune_iff)

lemma scanWords_filter:
  "scanWords (s0 # s') allWords found =
   Inr (found @ filter (\<lambda>w. s0 \<in> set w \<and> set w \<subseteq> set (s0 # s')) allWords)"
  by (induction allWords arbitrary: found) (simp_all add: Contains_single containsOnly_iff)

lemma scanWords_empty:
  "scanWords [] allWords found = (if allWords = [] then Inr found else Inl IndexOutOfRange)"
  by (cases allWords) simp_all

lemma score_eq:
  "score s ws (flag, pts) =
   (flag \<or> (\<exists>w \<in> set ws. set s \<subseteq> set w),
    pts + 3 * int (length (filter (\<lambda>w. set s \<subseteq> set w) ws))
        + int (length (filter (\<lambda>w. \<not> set s \<subseteq> set w) ws)))"
  by (induction ws arbitrary: flag pts) (auto simp: containsAll_iff)

lemma matchOne_eq:
  "matchOne allWords (s0 # s') =
   (let found = filter (\<lambda>w. s0 \<in> set w \<and> set w \<subseteq> set (s0 # s')) allWords in
    if 10 \<le> length found \<and> (\<exists>w \<in> set found. set (s0 # s') \<subseteq> set w)
    then Inr (Some \<lparr>letters = s0 # s', words = found,
                    maxPts = 3 * int (length (filter (\<lambda>w. set (s0 # s') \<subseteq> set w) found))
                           + int (length (filter (\<lambda>w. \<not> set (s0 # s') \<subseteq> set w) found))\<rparr>)
    else Inr None)"
  unfolding matchOne_def scanWords_filter
  by (simp add: score_eq Let_def del: set_simps)

lemma matchOne_empty:
  "matchOne allWords [] = (if allWords = [] then Inr None else Inl IndexOutOfRange)"
  by (simp add: matchOne_def scanWords_empty)

text \<open>
  Claim C2. For every non-empty string \<open>s\<close> of the input channel and every dictionary,
  the matcher sends a puzzle for \<open>s\<close> exactly when at least ten words qualify and some
  qualifying word contains every letter of \<open>s\<close>; otherwise the iteration ends with
  \<^verbatim>\<open>continue\<close> and nothing is sent.
\<close>

theorem matchOne_emits_iff:
  "((\<exists>p. matchOne allWords (s0 # s') = Inr (Some p)) \<longleftrightarrow>
      10 \<le> length (filter (\<lambda>w. s0 \<in> set w \<and> set w \<subseteq> set (s0 # s')) allWords)
      \<and> (\<exists>w \<in> set (filter (\<lambda>w. s0 \<in> set w \<and> set w \<subseteq> set (s0 # s')) allWords).
            set (s0 # s') \<subseteq> set w))
   \<and> ((\<nexists>p. matchOne allWords (s0 # s') = Inr (Some p)) \<longrightarrow>
        matchOne allWords (s0 # s') = Inr None)"
  unfolding matchOne_eq by (simp add: Let_def del: set_simps filter.simps)

text \<open>
  Claim C3. The score of every puzzle sent for \<open>s\<close> is three times the number of its
  words that contain every letter of \<open>s\<close> plus the number of its words that do not; its
  words are the qualifying words of the dictionary.
\<close>

theorem matchOne_score:
  assumes "matchOne allWords s = Inr (Some p)"
  shows "maxPts p = 3 * int (length (filter (\<lambda>w. set s \<subseteq> set w) (words p)))
                  + 1 * int (length (filter (\<lambda>w. \<not> set s \<subseteq> set w) (words p)))
         \<and> letters p = s
         \<and> (\<exists>s0 s'. s = s0 # s'
               \<and> words p = filter (\<lambda>w. s0 \<in> set w \<and> set w \<subseteq> set s) allWords)"
proof (cases s)
  case Nil
  with assms show ?thesis by (simp add: matchOne_empty split: if_splits)
next
  case (Cons s0 s')
  with assms show ?thesis
    unfolding Cons matchOne_eq
    by (auto simp add: Let_def simp del: set_simps filter.simps split: if_splits)
qed

text \<open>
  Claim C4. For every non-empty string \<open>s\<close> of the input channel, the scan keeps a
  dictionary word exactly when it contains the letter \<^verbatim>\<open>s[0]\<close> and all its characters are
  letters of \<open>s\<close>, and the words of a puzzle sent for \<open>s\<close> are the words kept, in
  dictionary order.
\<close>

theorem scanWords_qualifying_in_order:
  "scanWords (s0 # s') allWords [] =
     Inr (filter (\<lambda>w. s0 \<in> set w \<and> set w \<subseteq> set (s0 # s')) allWords)
   \<and> (\<forall>p. matchOne allWords (s0 # s') = Inr (Some p) \<longrightarrow>
          words p = filter (\<lambda>w. s0 \<in> set w \<and> set w \<subseteq> set (s0 # s')) allWords)"
  unfolding matchOne_eq scanWords_filter
  by (auto simp add: Let_def simp del: set_simps filter.simps split: if_splits)

theorem matchOne_emits_iff_witness:
  "(\<exists>p. matchOne [''aaaaa'', ''aaaab'', ''aaaba'', ''aabaa'', ''abaaa'', ''baaaa'', ''aabba'',
                   ''abbba'', ''babab'', ''ababa'', ''bbbbb'', ''abcab''] ''ab'' = Inr (Some p))
   \<and> matchOne [''aaaaa'', ''aaaab'', ''aaaba'', ''aabaa'', ''abaaa'', ''baaaa'', ''aabba'',
                ''abbba'', ''babab'', ''bbbbb'', ''abcab''] ''ab'' = Inr None
   \<and> matchOne [''aaaaa'', ''aaaaa'', ''aaaaa'', ''aaaaa'', ''aaaaa'', ''aaaaa'', ''aaaaa'',
                ''aaaaa'', ''aaaaa'', ''aaaaa''] ''ab'' = Inr None"
proof -
  have 1: "\<exists>p. matchOne [''aaaaa'', ''aaaab'', ''aaaba'', ''aabaa'', ''abaaa'', ''baaaa'', ''aabba'',
                   ''abbba'', ''babab'', ''ababa'', ''bbbbb'', ''abcab''] ''ab'' = Inr (Some p)"
    using matchOne_emits_iff[of "[''aaaaa'', ''aaaab'', ''aaaba'', ''aabaa'', ''abaaa'', ''baaaa'',
      ''aabba'', ''abbba'', ''babab'', ''ababa'', ''bbbbb'', ''abcab'']" "CHR ''a''" "''b''"]
    by simp
  have 2: "matchOne [''aaaaa'', ''aaaab'', ''aaaba'', ''aabaa'', ''abaaa'', ''baaaa'', ''aabba'',
                ''abbba'', ''babab'', ''bbbbb'', ''abcab''] ''ab'' = Inr None"
    using matchOne_emits_iff[of "[''aaaaa'', ''aaaab'', ''aaaba'', ''aabaa'', ''abaaa'', ''baaaa'',
      ''aabba'', ''abbba'', ''babab'', ''bbbbb'', ''abcab'']" "CHR ''a''" "''b''"]
    by simp
  have 3: "matchOne [''aaaaa'', ''aaaaa'', ''aaaaa'', ''aaaaa'', ''aaaaa'', ''aaaaa'', ''aaaaa'',
                ''aaaaa'', ''aaaaa'', ''aaaaa''] ''ab'' = Inr None"
    using matchOne_emits_iff[of "[''aaaaa'', ''aaaaa'', ''aaaaa'', ''aaaaa'', ''aaaaa'', ''aaaaa'',
      ''aaaaa'', ''aaaaa'', ''aaaaa'', ''aaaaa'']" "CHR ''a''" "''b''"]
    by simp
  from 1 2 3 show ?thesis by blast
qed

theorem matchOne_score_witness:
  "matchOne [''aaaaa'', ''aaaab'', ''aaaba'', ''aabaa'', ''abaaa'', ''baaaa'', ''aabba'',
             ''abbba'', ''babab'', ''ababa'', ''bbbbb'', ''abcab''] ''ab''
     = Inr (Some \<lparr>letters = ''ab'',
                   words = [''aaaaa'', ''aaaab'', ''aaaba'', ''aabaa'', ''abaaa'', ''baaaa'',
                            ''aabba'', ''abbba'', ''babab'', ''ababa''],
                   maxPts = 28\<rparr>)
   \<and> (28::int) = 3 * 9 + 1 * 1
   \<and> length (filter (\<lambda>w. set ''ab'' \<subseteq> set w)
        [''aaaaa'', ''aaaab'', ''aaaba'', ''aabaa'', ''abaaa'', ''baaaa'',
         ''aabba'', ''abbba'', ''babab'', ''ababa'']) = 9"
proof -
  have h: "matchOne [''aaaaa'', ''aaaab'', ''aaaba'', ''aabaa'', ''abaaa'', ''baaaa'', ''aabba'',
             ''abbba'', ''babab'', ''ababa'', ''bbbbb'', ''abcab''] ''ab''
     = Inr (Some \<lparr>letters = ''ab'',
                   words = [''aaaaa'', ''aaaab'', ''aaaba'', ''aabaa'', ''abaaa'', ''baaaa'',
                            ''aabba'', ''abbba'', ''babab'', ''ababa''],
                   maxPts = 28\<rparr>)"
    by code_simp
  from matchOne_score[OF h] h show ?thesis by simp
qed

theorem scanWords_qualifying_in_order_witness:
  "scanWords ''ab'' [''aaaaa'', ''aaaab'', ''aaaba'', ''aabaa'', ''abaaa'', ''baaaa'', ''aabba'',
             ''abbba'', ''babab'', ''ababa'', ''bbbbb'', ''abcab''] []
     = Inr [''aaaaa'', ''aaaab'', ''aaaba'', ''aabaa'', ''abaaa'', ''baaaa'',
            ''aabba'', ''abbba'', ''babab'', ''ababa'']
   \<and> scanWords ''ab'' [''aaaaa'', ''bbbbb'', ''aaaab'', ''abcab'', ''babab''] []
     = Inr [''aaaaa'', ''aaaab'', ''babab'']
   \<and> matchOne [''aaaaa'', ''aaaab'', ''aaaba'', ''aabaa'', ''abaaa'', ''baaaa'', ''aabba'',
             ''abbba'', ''babab'', ''ababa'', ''bbbbb'', ''abcab''] ''ab''
     = Inr (Some \<lparr>letters = ''ab'',
                   words = [''aaaaa'', ''aaaab'', ''aaaba'', ''aabaa'', ''abaaa'', ''baaaa'',
                            ''aabba'', ''abbba'', ''babab'', ''ababa''],
                   maxPts = 28\<rparr>)"
proof -
  have h: "matchOne [''aaaaa'', ''aaaab'', ''aaaba'', ''aabaa'', ''abaaa'', ''baaaa'', ''aabba'',
             ''abbba'', ''babab'', ''ababa'', ''bbbbb'', ''abcab''] ''ab''
     = Inr (Some \<lparr>letters = ''ab'',
                   words = [''aaaaa'', ''aaaab'', ''aaaba'', ''aabaa'', ''abaaa'', ''baaaa'',
                            ''aabba'', ''abbba'', ''babab'', ''ababa''],
                   maxPts = 28\<rparr>)"
    by code_simp
  have a: "scanWords ''ab'' [''aaaaa'', ''aaaab'', ''aaaba'', ''aabaa'', ''abaaa'', ''baaaa'',
             ''aabba'', ''abbba'', ''babab'', ''ababa'', ''bbbbb'', ''abcab''] []
     = Inr [''aaaaa'', ''aaaab'', ''aaaba'', ''aabaa'', ''abaaa'', ''baaaa'',
            ''aabba'', ''abbba'', ''babab'', ''ababa'']"
    using h scanWords_qualifying_in_order[of "CHR ''a''" "''b''"
      "[''aaaaa'', ''aaaab'', ''aaaba'', ''aabaa'', ''abaaa'', ''baaaa'', ''aabba'',
        ''abbba'', ''babab'', ''ababa'', ''bbbbb'', ''abcab'']"]
    by simp
  have b: "scanWords ''ab'' [''aaaaa'', ''bbbbb'', ''aaaab'', ''abcab'', ''babab''] []
     = Inr [''aaaaa'', ''aaaab'', ''babab'']"
    using scanWords_qualifying_in_order[of "CHR ''a''" "''b''"
      "[''aaaaa'', ''bbbbb'', ''aaaab'', ''abcab'', ''babab'']"]
    by simp
  from a b h show ?thesis by blast
qed

section \<open>Properties of the dictionary loader\<close>

lemma ReadBytes_no_delim: "delim \<notin> set r \<Longrightarrow> ReadBytes r delim = (r, None)"
  by (induction r) auto

lemma ReadBytes_line:
  "delim \<notin> set l \<Longrightarrow> ReadBytes (l @ delim # unread) delim = (l @ [delim], Some unread)"
  by (induction l) auto

lemma countLetters_iff:
  "finite cs \<Longrightarrow> countLetters cs s n \<longleftrightarrow> s = [] \<or> int (card (cs \<union> set s)) \<le> n"
proof (induction s arbitrary: cs)
  case Nil
  then show ?case by simp
next
  case (Cons c s)
  have fin: "finite (insert c cs)" using Cons.prems by simp
  have mono: "card (insert c cs) \<le> card (insert c cs \<union> set s)"
    using fin by (intro card_mono) auto
  have eq: "cs \<union> set (c # s) = insert c cs \<union> set s" by auto
  show ?case
  proof (cases "int (card (insert c cs)) > n")
    case True
    with mono show ?thesis unfolding eq by simp
  next
    case False
    then show ?thesis using Cons.IH[OF fin] unfolding eq by (cases s) auto
  qed
qed

lemma hasAtMostLetters_iff:
  "hasAtMostLetters s n \<longleftrightarrow> s = [] \<or> int (card (set s)) \<le> n"
  by (simp add: hasAtMostLetters_def countLetters_iff)

text \<open>One pass of the read loop over a line that ends with a line feed.\<close>

lemma readWords_line:
  assumes "CHR 0x0A \<notin> set l"
  shows "readWords trim n (l @ CHR 0x0A # unread) ending allWords =
         readWords trim n unread ending
           (allWords @ (if 5 \<le> length (trim (l @ [CHR 0x0A]))
                          \<and> set (trim (l @ [CHR 0x0A])) \<subseteq> set alphabet
                          \<and> int (card (set (trim (l @ [CHR 0x0A])))) \<le> n
                        then [trim (l @ [CHR 0x0A])] else []))"
proof -
  have "5 \<le> length w \<Longrightarrow> w \<noteq> []" for w :: string by auto
  then show ?thesis
    by (subst readWords.simps)
       (auto simp: ReadBytes_line[OF assms] Let_def containsOnly_iff hasAtMostLetters_iff
             simp del: set_simps)
qed

lemma readWords_tail:
  assumes "CHR 0x0A \<notin> set final"
  shows "readWords trim n final ending allWords =
         (case ending of EOF \<Rightarrow> Inr allWords | ReadError \<Rightarrow> Inl ReadBytesFailed)"
  by (subst readWords.simps) (simp add: ReadBytes_no_delim[OF assms])

lemma readWords_lines:
  assumes "\<forall>l \<in> set ls. CHR 0x0A \<notin> set l" and "CHR 0x0A \<notin> set final"
  shows "readWords trim n (concat (map (\<lambda>l. l @ [CHR 0x0A]) ls) @ final) ending allWords =
         (case ending of
            EOF \<Rightarrow> Inr (allWords @ filter (\<lambda>w. 5 \<le> length w \<and> set w \<subseteq> set alphabet
                                               \<and> int (card (set w)) \<le> n)
                                     (map (\<lambda>l. trim (l @ [CHR 0x0A])) ls))
          | ReadError \<Rightarrow> Inl ReadBytesFailed)"
  using assms
proof (induction ls arbitrary: allWords)
  case Nil
  then show ?case by (simp add: readWords_tail split: read_end.splits)
next
  case (Cons l ls)
  then have l: "CHR 0x0A \<notin> set l" and ls: "\<forall>l \<in> set ls. CHR 0x0A \<notin> set l" by simp_all
  show ?case
    using readWords_line[OF l, of trim n "concat (map (\<lambda>l. l @ [CHR 0x0A]) ls) @ final"]
          Cons.IH[OF ls Cons.prems(2)]
    by (simp split: read_end.splits)
qed

lemma readWords_ReadError: "readWords trim n r ReadError allWords = Inl ReadBytesFailed"
proof (induction trim n r ReadError allWords rule: readWords.induct)
  case (1 trim numLetters r allWords)
  show ?case
  proof (cases "ReadBytes r (CHR 0x0A)")
    case (Pair l unread)
    show ?thesis
    proof (cases unread)
      case None
      with Pair show ?thesis by (subst readWords.simps) simp
    next
      case (Some u)
      with Pair 1 show ?thesis by (subst readWords.simps) (simp add: Let_def)
    qed
  qed
qed

lemma readWords_drops_final:
  assumes "d = [] \<or> last d = CHR 0x0A" and "CHR 0x0A \<notin> set final"
  shows "readWords trim n (d @ final) EOF allWords = readWords trim n d EOF allWords"
  using assms(1)
proof (induction d arbitrary: allWords rule: length_induct)
  case (1 d)
  show ?case
  proof (cases "d = []")
    case True
    then show ?thesis using assms(2) by (simp add: readWords_tail)
  next
    case False
    with "1.prems" have "CHR 0x0A \<in> set d" by (metis last_in_set)
    then obtain l unread where d: "d = l @ CHR 0x0A # unread" and l: "CHR 0x0A \<notin> set l"
      by (meson split_list_first)
    have u: "unread = [] \<or> last unread = CHR 0x0A" using "1.prems" False d by (auto split: if_splits)
    have shorter: "length unread < length d" using d by simp
    have "readWords trim n (d @ final) EOF allWords =
          readWords trim n (l @ CHR 0x0A # (unread @ final)) EOF allWords"
      using d by simp
    also have "\<dots> = readWords trim n (l @ CHR 0x0A # unread) EOF allWords"
      unfolding readWords_line[OF l] using "1.IH" shorter u by blast
    finally show ?thesis using d by simp
  qed
qed

lemma genAllWords_terminated_lines:
  assumes "\<forall>l \<in> set ls. CHR 0x0A \<notin> set l"
  shows "genAllWords trim (Stream (concat (map (\<lambda>l. l @ [CHR 0x0A]) ls)) EOF) n =
         Inr (filter (\<lambda>w. 5 \<le> length w \<and> set w \<subseteq> set alphabet \<and> int (card (set w)) \<le> n)
                     (map (\<lambda>l. trim (l @ [CHR 0x0A])) ls))"
  using readWords_lines[OF assms, of "[]" trim n EOF "[]"] by (simp add: genAllWords_def)

text \<open>
  Claim C5, at an input where the code departs from it. The words file holds the five
  bytes \<^verbatim>\<open>hello\<close> and no line feed. The trimmed word has five characters, all of them
  lowercase letters, four of them distinct, so with \<^verbatim>\<open>num_letters\<close> = 7 the claim has it
  retained; the loader returns no word. (For lines that end with a line feed the loader
  keeps exactly the words the claim names: \<open>genAllWords_terminated_lines\<close>.)
\<close>

theorem genAllWords_skips_unterminated_word:
  "genAllWords TrimSpace (Stream ''hello'' EOF) 7 = Inr []
   \<and> TrimSpace ''hello'' = ''hello''
   \<and> 5 \<le> length ''hello''
   \<and> set ''hello'' \<subseteq> set alphabet
   \<and> int (card (set ''hello'')) \<le> 7
   \<and> genAllWords TrimSpace (Stream ''hello\<newline>'' EOF) 7 = Inr [''hello'']"
proof -
  have 1: "genAllWords TrimSpace (Stream ''hello'' EOF) 7 = Inr []" by code_simp
  have 2: "TrimSpace ''hello'' = ''hello''" by code_simp
  have 3: "set ''hello'' \<subseteq> set alphabet" by (simp add: alphabet_def)
  have 4: "int (card (set ''hello'')) \<le> 7" by simp
  have 5: "genAllWords TrimSpace (Stream ''hello\<newline>'' EOF) 7 = Inr [''hello'']" by code_simp
  from 1 2 3 4 5 show ?thesis by simp
qed

text \<open>
  Claim C10. When the words file does not end with a line feed, the bytes after the last
  line feed (the whole file when it has none) never reach the filters: the loader returns
  what it returns on the file without them, whatever word they spell. \<^verbatim>\<open>ReadBytes\<close> hands
  them over together with \<^verbatim>\<open>io.EOF\<close>, and the loop breaks on \<^verbatim>\<open>io.EOF\<close> first.
\<close>

theorem genAllWords_drops_unterminated_final_line:
  assumes "d = [] \<or> last d = CHR 0x0A" and "CHR 0x0A \<notin> set final"
  shows "genAllWords trim (Stream (d @ final) EOF) n = genAllWords trim (Stream d EOF) n"
  using readWords_drops_final[OF assms] by (simp add: genAllWords_def)

theorem genAllWords_drops_unterminated_final_line_witness:
  "last ''abcde\<newline>'' = CHR 0x0A \<and> CHR 0x0A \<notin> set ''hello''
   \<and> genAllWords TrimSpace (Stream ''abcde\<newline>hello'' EOF) 7 = Inr [''abcde'']
   \<and> genAllWords TrimSpace (Stream ''abcde\<newline>hello\<newline>'' EOF) 7 = Inr [''abcde'', ''hello'']"
proof -
  have a: "''abcde\<newline>'' = [] \<or> last ''abcde\<newline>'' = CHR 0x0A" by simp
  have b: "CHR 0x0A \<notin> set ''hello''" by simp
  have c: "genAllWords TrimSpace (Stream ''abcde\<newline>'' EOF) 7 = Inr [''abcde'']" by code_simp
  have d: "genAllWords TrimSpace (Stream ''abcde\<newline>hello\<newline>'' EOF) 7
           = Inr [''abcde'', ''hello'']" by code_simp
  from genAllWords_drops_unterminated_final_line[OF a b, of TrimSpace 7] c
  have "genAllWords TrimSpace (Stream ''abcde\<newline>hello'' EOF) 7 = Inr [''abcde'']" by simp
  with b d show ?thesis by simp
qed

section \<open>Properties of the puzzle writer\<close>

lemma printWords_eq: "printWords ws f = f @ concat (map (\<lambda>w. w @ [CHR 0x0A]) ws)"
  by (induction ws arbitrary: f) simp_all

lemma fileText_lines:
  "fileText p = concat (map (\<lambda>w. w @ [CHR 0x0A]) (words p)) @ itoa (maxPts p) @ [CHR 0x0A]"
  by (simp add: fileText_def printWords_eq)

text \<open>The digits printed for a number are its decimal representation.\<close>

definition digitValue :: "char \<Rightarrow> nat" where
  "digitValue c = of_char c - 48"

lemma digitValue_digit: "d < 10 \<Longrightarrow> digitValue (digit d) = d"
proof -
  assume "d < 10"
  then have "d \<in> {0, 1, 2, 3, 4, 5, 6, 7, 8, 9}" by auto
  then show ?thesis by (auto simp: digitValue_def digit_def)
qed

lemma utoa_decimal: "foldl (\<lambda>a c. 10 * a + digitValue c) 0 (utoa n) = n"
proof (induction n rule: utoa.induct)
  case (1 n)
  show ?case
  proof (cases "n < 10")
    case True
    then show ?thesis by (subst utoa.simps) (simp add: digitValue_digit)
  next
    case False
    with 1 show ?thesis by (subst utoa.simps) (simp add: digitValue_digit)
  qed
qed

lemma writePuzzles_append:
  "writePuzzles creatable (xs @ ys) dir =
   (case writePuzzles creatable xs dir of
      (dir1, None) \<Rightarrow> writePuzzles creatable ys dir1
    | (dir1, Some e) \<Rightarrow> (dir1, Some e))"
  by (induction xs arbitrary: dir) (simp_all add: Let_def)

lemma writePuzzles_creates_all:
  "list_all (\<lambda>q. creatable (''./puzzels/'' @ letters q @ ''.txt'')) ins \<Longrightarrow>
   snd (writePuzzles creatable ins dir) = None"
  by (induction ins arbitrary: dir) (simp_all add: Let_def)

lemma writePuzzles_other_paths:
  "path \<notin> (\<lambda>q. ''./puzzels/'' @ letters q @ ''.txt'') ` set ins \<Longrightarrow>
   fst (writePuzzles creatable ins dir) path = dir path"
  by (induction ins arbitrary: dir) (auto simp: Let_def)

lemma writePuzzles_last:
  assumes "list_all (\<lambda>q. creatable (''./puzzels/'' @ letters q @ ''.txt'')) (pre @ [p])"
  shows "\<exists>dir1. writePuzzles creatable (pre @ [p]) dir = (dir1, None)
           \<and> dir1 (''./puzzels/'' @ letters p @ ''.txt'') = Some (fileText p)"
proof -
  obtain dir0 where pre: "writePuzzles creatable pre dir = (dir0, None)"
    using writePuzzles_creates_all[of creatable pre dir] assms
    by (cases "writePuzzles creatable pre dir") auto
  have "creatable (''./puzzels/'' @ letters p @ ''.txt'')" using assms by simp
  then show ?thesis by (simp add: writePuzzles_append pre Let_def)
qed

text \<open>
  Claim C7. When the writer consumes a puzzle \<open>p\<close> (after any puzzles \<open>pre\<close>, and with
  \<^verbatim>\<open>os.Create\<close> succeeding up to then), it leaves a file named by the letters of \<open>p\<close>
  followed by \<^verbatim>\<open>.txt\<close> in the output directory, and the file holds each word of \<open>p\<close>
  followed by a line feed, in order, then the score in decimal followed by a line feed,
  and nothing else; the run then goes on with the puzzles that follow. When no later
  puzzle has the same letters and the later files can be created, the file is still
  there with these contents when the writer returns.
\<close>

theorem writePuzzles_file_contents:
  assumes "list_all (\<lambda>q. creatable (''./puzzels/'' @ letters q @ ''.txt'')) (pre @ [p])"
  shows "\<exists>dir1. writePuzzles creatable (pre @ [p]) dir = (dir1, None)
           \<and> dir1 (''./puzzels/'' @ letters p @ ''.txt'')
               = Some (concat (map (\<lambda>w. w @ [CHR 0x0A]) (words p))
                       @ itoa (maxPts p) @ [CHR 0x0A])
           \<and> (0 \<le> maxPts p \<longrightarrow>
                foldl (\<lambda>a c. 10 * a + digitValue c) 0 (itoa (maxPts p)) = nat (maxPts p))
           \<and> writePuzzles creatable (pre @ p # post) dir = writePuzzles creatable post dir1
           \<and> (letters p \<notin> letters ` set post
                \<and> list_all (\<lambda>q. creatable (''./puzzels/'' @ letters q @ ''.txt'')) post \<longrightarrow>
              writePuzzles creatable (pre @ p # post) dir
                = (fst (writePuzzles creatable (pre @ p # post) dir), None)
              \<and> fst (writePuzzles creatable (pre @ p # post) dir)
                  (''./puzzels/'' @ letters p @ ''.txt'')
                  = Some (concat (map (\<lambda>w. w @ [CHR 0x0A]) (words p))
                          @ itoa (maxPts p) @ [CHR 0x0A]))"
proof -
  from writePuzzles_last[OF assms, of dir] obtain dir1 where
    d1: "writePuzzles creatable (pre @ [p]) dir = (dir1, None)"
        "dir1 (''./puzzels/'' @ letters p @ ''.txt'') = Some (fileText p)" by blast
  have cont: "writePuzzles creatable (pre @ p # post) dir = writePuzzles creatable post dir1"
    using writePuzzles_append[of creatable "pre @ [p]" post dir] d1(1) by simp
  have dec: "0 \<le> maxPts p \<Longrightarrow>
      foldl (\<lambda>a c. 10 * a + digitValue c) 0 (itoa (maxPts p)) = nat (maxPts p)"
    by (simp add: itoa_def utoa_decimal)
  have keep: "fst (writePuzzles creatable post dir1) (''./puzzels/'' @ letters p @ ''.txt'')
                = Some (fileText p)"
    if "letters p \<notin> letters ` set post"
  proof -
    have "''./puzzels/'' @ letters p @ ''.txt''
            \<notin> (\<lambda>q. ''./puzzels/'' @ letters q @ ''.txt'') ` set post"
      using that by auto
    from writePuzzles_other_paths[OF this] d1(2) show ?thesis by simp
  qed
  have fin: "writePuzzles creatable post dir1 = (fst (writePuzzles creatable post dir1), None)"
    if "list_all (\<lambda>q. creatable (''./puzzels/'' @ letters q @ ''.txt'')) post"
    using writePuzzles_creates_all[OF that, of dir1]
    by (cases "writePuzzles creatable post dir1") simp
  show ?thesis
    using d1 cont dec keep fin by (auto simp: fileText_lines)
qed

theorem writePuzzles_file_contents_witness:
  "writePuzzles (\<lambda>path. True)
     [\<lparr>letters = ''ba'', words = [''bbbbb''], maxPts = 1\<rparr>,
      \<lparr>letters = ''ab'', words = [''aaaab'', ''ababa''], maxPts = 6\<rparr>] Map.empty
   = ([''./puzzels/ba.txt'' \<mapsto> ''bbbbb\<newline>1\<newline>'',
       ''./puzzels/ab.txt'' \<mapsto> ''aaaab\<newline>ababa\<newline>6\<newline>''], None)
   \<and> foldl (\<lambda>a c. 10 * a + digitValue c) 0 ''6'' = 6"
proof -
  let ?q = "\<lparr>letters = ''ba'', words = [''bbbbb''], maxPts = 1\<rparr>"
  let ?p = "\<lparr>letters = ''ab'', words = [''aaaab'', ''ababa''], maxPts = 6\<rparr>"
  have i: "itoa 6 = ''6''" "itoa 1 = ''1''" by code_simp+
  have c: "list_all (\<lambda>q. (\<lambda>path. True) (''./puzzels/'' @ letters q @ ''.txt'')) ([?q] @ [?p])"
    by simp
  from writePuzzles_file_contents[OF c, of Map.empty "[]"] i show ?thesis
    by (auto simp: fileText_lines Let_def)
qed

section \<open>Properties of the matcher pool\<close>

text \<open>What one worker iteration sends, as a list of at most one puzzle.\<close>

definition sentFor :: "string list \<Rightarrow> string \<Rightarrow> puzzle list" where
  "sentFor allWords s =
     (case matchOne allWords s of Inr (Some p) \<Rightarrow> [p] | Inr None \<Rightarrow> [] | Inl e \<Rightarrow> [])"

lemma matchOne_no_panic: "s \<noteq> [] \<Longrightarrow> \<exists>r. matchOne allWords s = Inr r"
  by (cases s) (simp_all add: matchOne_eq Let_def del: set_simps filter.simps)

lemma matchWords_no_panic:
  "[] \<notin> set ins \<Longrightarrow> matchWords allWords ins = (concat (map (sentFor allWords) ins), None)"
proof (induction ins)
  case Nil
  then show ?case by simp
next
  case (Cons s ins)
  then have "s \<noteq> []" by auto
  from matchOne_no_panic[OF this, of allWords] obtain r where "matchOne allWords s = Inr r"
    by blast
  with Cons show ?case by (cases r) (simp_all add: sentFor_def)
qed

lemma rotations_nonempty: "[] \<notin> set (rotations s i)"
  by (auto simp: rotations_from)

lemma rotate_chan_nonempty: "[] \<notin> set (rotate_chan ins)"
  by (induction ins) (simp_all add: rotations_nonempty)

lemma received_subset: "set (received sched rotated k) \<subseteq> set rotated"
  by (auto simp: received_def dest: set_zip_leftD)

lemma received_split:
  "mset (map fst (filter (\<lambda>(s, j). j < n) z)) + mset (map fst (filter (\<lambda>(s, j). j = n) z))
   = mset (map fst (filter (\<lambda>(s, j). j < Suc n) z))"
  by (induction z) (auto simp: less_Suc_eq)

lemma received_partition_upto:
  "mset (concat (map (\<lambda>k. map fst (filter (\<lambda>(s, j). j = k) z)) [0..<n]))
   = mset (map fst (filter (\<lambda>(s, j). j < n) z))"
proof (induction n)
  case 0
  then show ?case by simp
next
  case (Suc n)
  have "mset (concat (map (\<lambda>k. map fst (filter (\<lambda>(s, j). j = k) z)) [0..<Suc n]))
        = mset (concat (map (\<lambda>k. map fst (filter (\<lambda>(s, j). j = k) z)) [0..<n]))
          + mset (map fst (filter (\<lambda>(s, j). j = n) z))"
    by (simp del: mset_map mset_filter)
  then show ?case unfolding Suc.IH received_split .
qed

lemma received_partition:
  assumes "schedule_ok sched rotated parallel"
  shows "mset (concat (map (received sched rotated) [0..<parallel])) = mset rotated"
proof -
  have all: "\<forall>(s, j) \<in> set (zip rotated sched). j < parallel"
    using assms by (auto simp: schedule_ok_def list_all_iff dest: set_zip_rightD)
  then have "filter (\<lambda>(s, j). j < parallel) (zip rotated sched) = zip rotated sched"
    by (intro filter_True) auto
  moreover have "map fst (zip rotated sched) = rotated"
    using assms by (simp add: schedule_ok_def)
  moreover have "received sched rotated
      = (\<lambda>k. map fst (filter (\<lambda>(s, j). j = k) (zip rotated sched)))"
    by (rule ext) (simp add: received_def)
  ultimately show ?thesis
    using received_partition_upto[of "zip rotated sched" parallel] by simp
qed

lemma concat_map_concat:
  "concat (map (\<lambda>k. concat (map f (g k))) ks) = concat (map f (concat (map g ks)))"
  by (induction ks) simp_all

lemma mset_concat_map_cong:
  "mset xs = mset ys \<Longrightarrow> mset (concat (map f xs)) = mset (concat (map f ys))"
proof -
  assume "mset xs = mset ys"
  then have "image_mset (\<lambda>x. mset (f x)) (mset xs) = image_mset (\<lambda>x. mset (f x)) (mset ys)"
    by simp
  moreover have "mset (concat (map f zs)) = sum_mset (image_mset (\<lambda>x. mset (f x)) (mset zs))"
    for zs by (induction zs) simp_all
  ultimately show ?thesis by simp
qed

lemma pool_sends:
  assumes "schedule_ok sched (rotate_chan strings) parallel"
  shows "list_all (\<lambda>r. snd r = None) (pool allWords parallel sched (rotate_chan strings))"
    and "mset (concat (map fst (pool allWords parallel sched (rotate_chan strings))))
         = mset (concat (map (sentFor allWords) (rotate_chan strings)))"
proof -
  let ?rot = "rotate_chan strings"
  have ne: "[] \<notin> set (received sched ?rot k)" for k
    using received_subset[of sched ?rot k] rotate_chan_nonempty[of strings] by auto
  have w: "matchWords allWords (received sched ?rot k)
           = (concat (map (sentFor allWords) (received sched ?rot k)), None)" for k
    by (rule matchWords_no_panic[OF ne])
  show "list_all (\<lambda>r. snd r = None) (pool allWords parallel sched ?rot)"
    by (simp add: pool_def list_all_iff w)
  have "concat (map fst (pool allWords parallel sched ?rot))
        = concat (map (\<lambda>k. concat (map (sentFor allWords) (received sched ?rot k))) [0..<parallel])"
    by (simp add: pool_def w comp_def)
  also have "\<dots> = concat (map (sentFor allWords) (concat (map (received sched ?rot) [0..<parallel])))"
    by (rule concat_map_concat)
  finally show "mset (concat (map fst (pool allWords parallel sched ?rot)))
         = mset (concat (map (sentFor allWords) ?rot))"
    using mset_concat_map_cong[OF received_partition[OF assms], of "sentFor allWords"] by simp
qed

lemma concat_update_head:
  assumes "k < length xss" and "xss ! k = x # xs"
  shows "mset (concat xss) = add_mset x (mset (concat (xss[k := xs])))"
proof -
  have "xss = take k xss @ (x # xs) # drop (Suc k) xss"
    using assms by (metis id_take_nth_drop)
  moreover have "xss[k := xs] = take k xss @ xs # drop (Suc k) xss"
    using assms(1) by (rule upd_conv_take_nth_drop)
  ultimately show ?thesis
    by (metis (no_types, lifting) concat.simps(2) concat_append mset.simps(2) mset_append
        union_mset_add_mset_right append_Cons)
qed

lemma interleaving_mset: "interleaving xss out \<Longrightarrow> mset out = mset (concat xss)"
proof (induction rule: interleaving.induct)
  case (drained xss)
  then have "concat xss = []" by (auto simp: list_all_iff)
  then show ?case by simp
next
  case (sent k xss x xs out)
  then show ?case by (simp add: concat_update_head)
qed

text \<open>Every list of worker outputs has an interleaving, for instance worker by worker.\<close>

lemma interleaving_idle_worker: "interleaving xss out \<Longrightarrow> interleaving ([] # xss) out"
proof (induction rule: interleaving.induct)
  case (drained xss)
  then show ?case by (simp add: interleaving.drained)
next
  case (sent k xss x xs out)
  then show ?case
    using interleaving.sent[of "Suc k" "[] # xss" x xs out] by simp
qed

lemma interleaving_first_worker:
  "interleaving ([] # xss) out \<Longrightarrow> interleaving (xs # xss) (xs @ out)"
proof (induction xs)
  case Nil
  then show ?case by simp
next
  case (Cons x xs)
  then show ?case
    using interleaving.sent[of 0 "(x # xs) # xss" x xs "xs @ out"] by simp
qed

lemma interleaving_concat: "interleaving xss (concat xss)"
proof (induction xss)
  case Nil
  show ?case by (simp add: interleaving.drained)
next
  case (Cons xs xss)
  then show ?case
    by (simp add: interleaving_idle_worker interleaving_first_worker)
qed

lemma set_sentFor:
  "set (concat (map (sentFor allWords) rotated))
   = {p. \<exists>s \<in> set rotated. matchOne allWords s = Inr (Some p)}"
  by (auto simp: sentFor_def split: sum.splits option.splits)

text \<open>
  Claim C8. Take any dictionary and any strings sent by the rotation expander, and run the
  pool once with \<open>n\<close> workers and once with \<open>m\<close> workers (say 1 and 50), under any two
  schedules that hand every string to one worker, and with the workers' puzzles reaching
  the output channel in any two interleavings. Both runs send the same puzzles, each as
  often as the other; they are the puzzles the matcher sends for the strings one by one.
  Only the order may differ.
\<close>

theorem pool_same_puzzles_for_any_workers:
  assumes "schedule_ok schedA (rotate_chan strings) n"
      and "schedule_ok schedB (rotate_chan strings) m"
      and "interleaving (map fst (pool allWords n schedA (rotate_chan strings))) outA"
      and "interleaving (map fst (pool allWords m schedB (rotate_chan strings))) outB"
  shows "set outA = set outB \<and> mset outA = mset outB
         \<and> set outA = {p. \<exists>s \<in> set (rotate_chan strings). matchOne allWords s = Inr (Some p)}"
proof -
  have a: "mset outA = mset (concat (map (sentFor allWords) (rotate_chan strings)))"
    using interleaving_mset[OF assms(3)] pool_sends(2)[OF assms(1)] by simp
  have b: "mset outB = mset (concat (map (sentFor allWords) (rotate_chan strings)))"
    using interleaving_mset[OF assms(4)] pool_sends(2)[OF assms(2)] by simp
  from a have "set outA = set (concat (map (sentFor allWords) (rotate_chan strings)))"
    by (rule mset_eq_setD)
  moreover from a b have "mset outA = mset outB" by simp
  moreover from this have "set outA = set outB" by (rule mset_eq_setD)
  ultimately show ?thesis by (simp only: set_sentFor) 
qed

theorem pool_same_puzzles_for_any_workers_witness:
  "schedule_ok [0, 0] (rotate_chan [''ab'']) 1
   \<and> schedule_ok [7, 3] (rotate_chan [''ab'']) 50
   \<and> interleaving (map fst (pool [''aaaaa'', ''aaaab'', ''aaaba'', ''aabaa'', ''abaaa'', ''baaaa'',
          ''aabba'', ''abbba'', ''babab'', ''ababa'', ''bbbbb'', ''abcab''] 1 [0, 0]
          (rotate_chan [''ab''])))
        [\<lparr>letters = ''ab'',
          words = [''aaaaa'', ''aaaab'', ''aaaba'', ''aabaa'', ''abaaa'', ''baaaa'',
                   ''aabba'', ''abbba'', ''babab'', ''ababa''], maxPts = 28\<rparr>,
         \<lparr>letters = ''ba'',
          words = [''aaaab'', ''aaaba'', ''aabaa'', ''abaaa'', ''baaaa'',
                   ''aabba'', ''abbba'', ''babab'', ''ababa'', ''bbbbb''], maxPts = 28\<rparr>]
   \<and> interleaving (map fst (pool [''aaaaa'', ''aaaab'', ''aaaba'', ''aabaa'', ''abaaa'', ''baaaa'',
          ''aabba'', ''abbba'', ''babab'', ''ababa'', ''bbbbb'', ''abcab''] 50 [7, 3]
          (rotate_chan [''ab''])))
        [\<lparr>letters = ''ba'',
          words = [''aaaab'', ''aaaba'', ''aabaa'', ''abaaa'', ''baaaa'',
                   ''aabba'', ''abbba'', ''babab'', ''ababa'', ''bbbbb''], maxPts = 28\<rparr>,
         \<lparr>letters = ''ab'',
          words = [''aaaaa'', ''aaaab'', ''aaaba'', ''aabaa'', ''abaaa'', ''baaaa'',
                   ''aabba'', ''abbba'', ''babab'', ''ababa''], maxPts = 28\<rparr>]
   \<and> set [\<lparr>letters = ''ab'',
          words = [''aaaaa'', ''aaaab'', ''aaaba'', ''aabaa'', ''abaaa'', ''baaaa'',
                   ''aabba'', ''abbba'', ''babab'', ''ababa''], maxPts = 28\<rparr>,
         \<lparr>letters = ''ba'',
          words = [''aaaab'', ''aaaba'', ''aabaa'', ''abaaa'', ''baaaa'',
                   ''aabba'', ''abbba'', ''babab'', ''ababa'', ''bbbbb''], maxPts = 28\<rparr>]
     = set [\<lparr>letters = ''ba'',
          words = [''aaaab'', ''aaaba'', ''aabaa'', ''abaaa'', ''baaaa'',
                   ''aabba'', ''abbba'', ''babab'', ''ababa'', ''bbbbb''], maxPts = 28\<rparr>,
         \<lparr>letters = ''ab'',
          words = [''aaaaa'', ''aaaab'', ''aaaba'', ''aabaa'', ''abaaa'', ''baaaa'',
                   ''aabba'', ''abbba'', ''babab'', ''ababa''], maxPts = 28\<rparr>]"
proof -
  let ?D = "[''aaaaa'', ''aaaab'', ''aaaba'', ''aabaa'', ''abaaa'', ''baaaa'',
          ''aabba'', ''abbba'', ''babab'', ''ababa'', ''bbbbb'', ''abcab'']"
  let ?ab = "\<lparr>letters = ''ab'',
          words = [''aaaaa'', ''aaaab'', ''aaaba'', ''aabaa'', ''abaaa'', ''baaaa'',
                   ''aabba'', ''abbba'', ''babab'', ''ababa''], maxPts = 28\<rparr>"
  let ?ba = "\<lparr>letters = ''ba'',
          words = [''aaaab'', ''aaaba'', ''aabaa'', ''abaaa'', ''baaaa'',
                   ''aabba'', ''abbba'', ''babab'', ''ababa'', ''bbbbb''], maxPts = 28\<rparr>"
  have r: "rotate_chan [''ab''] = [''ab'', ''ba'']" by code_simp
  have s1: "schedule_ok [0, 0] (rotate_chan [''ab'']) 1" unfolding r by (simp add: schedule_ok_def)
  have s50: "schedule_ok [7, 3] (rotate_chan [''ab'']) 50"
    unfolding r by (simp add: schedule_ok_def)
  have c1: "concat (map fst (pool ?D 1 [0, 0] [''ab'', ''ba''])) = [?ab, ?ba]" by code_simp
  have c50: "concat (map fst (pool ?D 50 [7, 3] [''ab'', ''ba''])) = [?ba, ?ab]" by code_simp
  have i1: "interleaving (map fst (pool ?D 1 [0, 0] (rotate_chan [''ab'']))) [?ab, ?ba]"
    using interleaving_concat[of "map fst (pool ?D 1 [0, 0] [''ab'', ''ba''])"]
    unfolding r c1 .
  have i50: "interleaving (map fst (pool ?D 50 [7, 3] (rotate_chan [''ab'']))) [?ba, ?ab]"
    using interleaving_concat[of "map fst (pool ?D 50 [7, 3] [''ab'', ''ba''])"]
    unfolding r c50 .
  note same = pool_same_puzzles_for_any_workers[OF s1 s50 i1 i50]
  show ?thesis
    by (rule conjI[OF s1], rule conjI[OF s50], rule conjI[OF i1], rule conjI[OF i50],
        rule same[THEN conjunct1])
qed

section \<open>Properties of the whole run\<close>

lemma genAllWords_unreadable:
  "genAllWords trim Missing n = Inl OpenFailed"
  "genAllWords trim (Stream bytes ReadError) n = Inl ReadBytesFailed"
  by (simp_all add: genAllWords_def readWords_ReadError)

text \<open>
  Claim C9 as stated has the process end before any pipeline work begins. At a missing
  words file, the run does end with the fatal error and without a file, but the
  generator, the rotation expander and the writer have been launched before the
  dictionary is opened.
\<close>

theorem main_run_launches_stages_before_loading:
  "main_run TrimSpace Missing (\<lambda>path. True) 7 100 Map.empty
     \<lparr>directory = Map.empty, fatal = Some OpenFailed,
      launched = [GenAllStrings, Rotate, WritePuzzles]\<rparr>
   \<and> [GenAllStrings, Rotate, WritePuzzles] \<noteq> []"
proof -
  have "genAllWords TrimSpace Missing 7 = Inl OpenFailed"
    by (rule genAllWords_unreadable(1))
  then show ?thesis by (simp add: main_run.startup_fatal)
qed

text \<open>
  Claim C9, amended. When the words file cannot be opened, or reading it ends with an
  error, the run ends with the fatal error of the loader before any worker is launched:
  only the generator, the rotation expander and the writer have been launched, no puzzle
  is matched, and the output directory is as it was. This is the only outcome such a run
  can have.
\<close>

theorem main_run_fatal_on_unreadable_dictionary:
  assumes "wordsFile = Missing \<or> (\<exists>bytes. wordsFile = Stream bytes ReadError)"
  shows "main_run trim wordsFile creatable numLetters parallel dir
           \<lparr>directory = dir,
            fatal = Some (if wordsFile = Missing then OpenFailed else ReadBytesFailed),
            launched = [GenAllStrings, Rotate, WritePuzzles]\<rparr>
         \<and> (\<forall>result. main_run trim wordsFile creatable numLetters parallel dir result \<longrightarrow>
               result = \<lparr>directory = dir,
                          fatal = Some (if wordsFile = Missing then OpenFailed
                                        else ReadBytesFailed),
                          launched = [GenAllStrings, Rotate, WritePuzzles]\<rparr>)"
proof -
  let ?e = "if wordsFile = Missing then OpenFailed else ReadBytesFailed"
  let ?out = "\<lparr>directory = dir, fatal = Some ?e,
               launched = [GenAllStrings, Rotate, WritePuzzles]\<rparr>"
  have load: "genAllWords trim wordsFile numLetters = Inl ?e"
    using assms genAllWords_unreadable[of trim] by auto
  then have "main_run trim wordsFile creatable numLetters parallel dir ?out"
    by (rule main_run.startup_fatal)
  moreover have "result = ?out"
    if "main_run trim wordsFile creatable numLetters parallel dir result" for result
    using that load by (cases rule: main_run.cases) simp_all
  ultimately show ?thesis by blast
qed

theorem main_run_fatal_on_unreadable_dictionary_witness:
  "main_run TrimSpace Missing (\<lambda>path. True) 7 100 Map.empty
     \<lparr>directory = Map.empty, fatal = Some OpenFailed,
      launched = [GenAllStrings, Rotate, WritePuzzles]\<rparr>
   \<and> \<not> main_run TrimSpace Missing (\<lambda>path. True) 7 100 Map.empty
         \<lparr>directory = [''./puzzels/abcdefg.txt'' \<mapsto> ''1\<newline>''], fatal = None,
          launched = [GenAllStrings, Rotate, WritePuzzles, MatchWords 0]\<rparr>
   \<and> main_run TrimSpace (Stream ''hello\<newline>wor'' ReadError) (\<lambda>path. True) 7 100 Map.empty
         \<lparr>directory = Map.empty, fatal = Some ReadBytesFailed,
          launched = [GenAllStrings, Rotate, WritePuzzles]\<rparr>"
proof -
  have a: "Missing = Missing \<or> (\<exists>bytes. Missing = Stream bytes ReadError)" by simp
  have b: "Stream ''hello\<newline>wor'' ReadError = Missing
           \<or> (\<exists>bytes. Stream ''hello\<newline>wor'' ReadError = Stream bytes ReadError)" by simp
  from main_run_fatal_on_unreadable_dictionary[OF a, of TrimSpace "\<lambda>path. True" 7 100 Map.empty]
       main_run_fatal_on_unreadable_dictionary[OF b, of TrimSpace "\<lambda>path. True" 7 100 Map.empty]
  show ?thesis by auto
qed

text \<open>
  A full run, to see the stages work together: one letter per puzzle, one worker, and a
  words file of ten words spelled with the letter \<open>a\<close> alone. Of the 26 strings the
  worker receives only \<open>a\<close> has ten qualifying words, each of them using every letter,
  and the run leaves one file.
\<close>

lemma main_run_one_letter:
  "main_run TrimSpace
     (Stream ''aaaaa\<newline>aaaaaa\<newline>aaaaaaa\<newline>aaaaaaaa\<newline>aaaaaaaaa\<newline>aaaaaaaaaa\<newline>aaaaaaaaaaa\<newline>aaaaaaaaaaaa\<newline>aaaaaaaaaaaaa\<newline>aaaaaaaaaaaaaa\<newline>bbbbb\<newline>'' EOF)
     (\<lambda>path. True) 1 1 Map.empty
     \<lparr>directory = [''./puzzels/a.txt'' \<mapsto>
        ''aaaaa\<newline>aaaaaa\<newline>aaaaaaa\<newline>aaaaaaaa\<newline>aaaaaaaaa\<newline>aaaaaaaaaa\<newline>aaaaaaaaaaa\<newline>aaaaaaaaaaaa\<newline>aaaaaaaaaaaaa\<newline>aaaaaaaaaaaaaa\<newline>30\<newline>''],
      fatal = None,
      launched = [GenAllStrings, Rotate, WritePuzzles, MatchWords 0]\<rparr>"
proof -
  let ?file = "Stream ''aaaaa\<newline>aaaaaa\<newline>aaaaaaa\<newline>aaaaaaaa\<newline>aaaaaaaaa\<newline>aaaaaaaaaa\<newline>aaaaaaaaaaa\<newline>aaaaaaaaaaaa\<newline>aaaaaaaaaaaaa\<newline>aaaaaaaaaaaaaa\<newline>bbbbb\<newline>'' EOF"
  let ?aw = "[''aaaaa'', ''aaaaaa'', ''aaaaaaa'', ''aaaaaaaa'', ''aaaaaaaaa'', ''aaaaaaaaaa'',
              ''aaaaaaaaaaa'', ''aaaaaaaaaaaa'', ''aaaaaaaaaaaaa'', ''aaaaaaaaaaaaaa'', ''bbbbb'']"
  let ?p = "\<lparr>letters = ''a'',
             words = [''aaaaa'', ''aaaaaa'', ''aaaaaaa'', ''aaaaaaaa'', ''aaaaaaaaa'', ''aaaaaaaaaa'',
                      ''aaaaaaaaaaa'', ''aaaaaaaaaaaa'', ''aaaaaaaaaaaaa'', ''aaaaaaaaaaaaaa''],
             maxPts = 30\<rparr>"
  let ?rot = "map (\<lambda>c. [c]) alphabet"
  let ?sched = "replicate 26 (0::nat)"
  have load: "genAllWords TrimSpace ?file 1 = Inr ?aw" by code_simp
  have gen: "genAllStrings 1 = Some ?rot" by (rule genAllStrings_1)
  have rot: "rotate_chan ?rot = ?rot" by code_simp
  have ok: "schedule_ok ?sched (rotate_chan ?rot) (nat 1)"
    unfolding rot by (simp add: schedule_ok_def alphabet_length list_all_iff)
  have pool1: "pool ?aw (nat 1) ?sched (rotate_chan ?rot) = [([?p], None)]"
    unfolding rot by code_simp
  have quiet: "list_all (\<lambda>r. snd r = None) (pool ?aw (nat 1) ?sched (rotate_chan ?rot))"
    unfolding pool1 by simp
  have inter: "interleaving (map fst (pool ?aw (nat 1) ?sched (rotate_chan ?rot))) [?p]"
    using interleaving_concat[of "[[?p]]"] unfolding pool1 by simp
  have wr: "writePuzzles (\<lambda>path. True) [?p] Map.empty =
     ([''./puzzels/a.txt'' \<mapsto>
        ''aaaaa\<newline>aaaaaa\<newline>aaaaaaa\<newline>aaaaaaaa\<newline>aaaaaaaaa\<newline>aaaaaaaaaa\<newline>aaaaaaaaaaa\<newline>aaaaaaaaaaaa\<newline>aaaaaaaaaaaaa\<newline>aaaaaaaaaaaaaa\<newline>30\<newline>''],
      None)"
  proof -
    have "itoa 30 = ''30''" by code_simp
    then show ?thesis by (simp add: Let_def fileText_lines)
  qed
  have j: "(0::nat) < 1" "(1::nat) \<le> nat 1" "(None::failure option) = None \<longrightarrow> (1::nat) = nat 1"
    by simp_all
  from main_run.pipeline[OF load _ gen ok quiet inter wr j]
  show ?thesis by simp
qed

end
